theory Spec2Isabelle
  imports Main "HOL-Library.Word" "HOL-Library.Sublist"
begin

unbundle bit_operations_syntax

section \<open>The integer domain \<open>P\<close> of \<open>t_path<P>\<close>\<close>

text \<open>
  \<open>t_path<P>\<close> is instantiated at \<open>int64_t\<close> (\<open>typedef t_path<int64_t> path\<close>) and at
  \<open>mpz_class\<close> (\<open>mp_path\<close>).  Values of \<open>P\<close> are modelled as \<open>int\<close>; every
  multiplication, addition and \<open>abs\<close> of the source is followed by \<open>wrap\<close>, which is
  the identity for \<open>mpz_class\<close> and two's-complement reduction to 64 bits for
  \<open>int64_t\<close>.
\<close>

datatype domain = Int64 | Mpz

definition wrap :: "domain \<Rightarrow> int \<Rightarrow> int" where
  "wrap d x = (case d of Mpz \<Rightarrow> x | Int64 \<Rightarrow> (x + 2 ^ 63) mod 2 ^ 64 - 2 ^ 63)"

definition in_dom :: "domain \<Rightarrow> int \<Rightarrow> bool" where
  "in_dom d x = (case d of Mpz \<Rightarrow> True | Int64 \<Rightarrow> - (2 ^ 63) \<le> x \<and> x < 2 ^ 63)"

text \<open>C++ \<open>/\<close> and \<open>%\<close> (and GMP's \<open>mpz_class\<close> operators) truncate towards zero.\<close>

definition tdiv :: "int \<Rightarrow> int \<Rightarrow> int" where
  "tdiv a b = sgn a * sgn b * (\<bar>a\<bar> div \<bar>b\<bar>)"

definition trem :: "int \<Rightarrow> int \<Rightarrow> int" where
  "trem a b = sgn a * (\<bar>a\<bar> mod \<bar>b\<bar>)"

definition p_mul :: "domain \<Rightarrow> int \<Rightarrow> int \<Rightarrow> int" where
  "p_mul d a b = wrap d (a * b)"

definition p_add :: "domain \<Rightarrow> int \<Rightarrow> int \<Rightarrow> int" where
  "p_add d a b = wrap d (a + b)"

definition p_sub :: "domain \<Rightarrow> int \<Rightarrow> int \<Rightarrow> int" where
  "p_sub d a b = wrap d (a - b)"

definition p_abs :: "domain \<Rightarrow> int \<Rightarrow> int" where
  "p_abs d a = wrap d \<bar>a\<bar>"

text \<open>The process-wide connection parameters of \<open>class statics\<close> (menu.cpp) and its error codes.\<close>

definition divisor :: int where "divisor = 2"
definition multiplier :: int where "multiplier = 3"
definition addend :: int where "addend = 1"
definition overflow :: int where "overflow = 1"
definition memory :: int where "memory = 2"

section \<open>\<open>orbit_key_t\<close>, \<open>orbit_node_t\<close> and \<open>orbit_t\<close>\<close>

text \<open>
  The union \<open>orbit_key_t\<close> is its 64-bit view \<open>i_key\<close>; the byte view \<open>c_key[i]\<close> is
  byte \<open>i\<close> of that word on the little-endian hosts the code indexes for
  (\<open>c_key[7]\<close> is the most significant byte).
\<close>

definition c_key_get :: "64 word \<Rightarrow> nat \<Rightarrow> 8 word" where
  "c_key_get k i = ucast (drop_bit (8 * i) k)"

definition c_key_set :: "64 word \<Rightarrow> nat \<Rightarrow> 8 word \<Rightarrow> 64 word" where
  "c_key_set k i v = (k AND NOT (push_bit (8 * i) (mask 8))) OR push_bit (8 * i) (ucast v)"

datatype orbit_node_t = Orbit_node (key: "64 word") (next_node: "orbit_node_t option")

fun node_eq :: "orbit_node_t \<Rightarrow> orbit_node_t \<Rightarrow> bool" where
  "node_eq (Orbit_node k lop) (Orbit_node rk rop) =
     (if k = rk then
        (case lop of
           Some l \<Rightarrow> (case rop of Some r \<Rightarrow> node_eq l r | None \<Rightarrow> True)
         | None \<Rightarrow> True)
      else False)"

fun node_less :: "orbit_node_t \<Rightarrow> orbit_node_t \<Rightarrow> bool" where
  "node_less (Orbit_node k lop) (Orbit_node rk rop) =
     (if k = rk then
        (case lop of
           Some l \<Rightarrow> (case rop of Some r \<Rightarrow> node_less l r | None \<Rightarrow> False)
         | None \<Rightarrow> False)
      else k < rk)"

fun node_greater :: "orbit_node_t \<Rightarrow> orbit_node_t \<Rightarrow> bool" where
  "node_greater (Orbit_node k lop) (Orbit_node rk rop) =
     (if k = rk then
        (case lop of
           Some l \<Rightarrow> (case rop of Some r \<Rightarrow> node_greater l r | None \<Rightarrow> False)
         | None \<Rightarrow> False)
      else k > rk)"

text \<open>
  \<open>orbit_t\<close>: the member \<open>curr\<close> always addresses the last node of the chain
  (\<open>init\<close> sets it to \<open>&root\<close>; \<open>append\<close> and \<open>copy_list\<close> move it onto each node they
  link), so it is not a field here: \<open>link_node\<close> and \<open>upd_curr\<close> act on the last node.
  Plain \<open>new\<close> never returns a null pointer, so the allocation always yields a node.
\<close>

record orbit_t =
  root :: orbit_node_t
  path_length :: nat
  orb_error_mask :: int

definition new_node :: orbit_node_t where
  "new_node = Orbit_node 0 None"

definition orbit_init :: orbit_t where
  "orbit_init = \<lparr>root = Orbit_node 0 None, path_length = 0, orb_error_mask = 0\<rparr>"

fun link_node :: "orbit_node_t \<Rightarrow> orbit_node_t" where
  "link_node (Orbit_node k None) = Orbit_node k (Some new_node)"
| "link_node (Orbit_node k (Some n)) = Orbit_node k (Some (link_node n))"

fun upd_curr :: "(64 word \<Rightarrow> 64 word) \<Rightarrow> orbit_node_t \<Rightarrow> orbit_node_t" where
  "upd_curr f (Orbit_node k None) = Orbit_node (f k) None"
| "upd_curr f (Orbit_node k (Some n)) = Orbit_node k (Some (upd_curr f n))"

text \<open>\<open>orbit_t::append\<close>: the \<open>long\<close> argument is narrowed to \<open>uint8_t\<close> by the store.\<close>

definition orbit_append :: "orbit_t \<Rightarrow> int \<Rightarrow> orbit_t" where
  "orbit_append ob divisors =
     (let pos = path_length ob mod 8;
          r = (if pos = 0 \<and> pos < path_length ob then link_node (root ob) else root ob)
      in ob\<lparr>root := upd_curr (\<lambda>k. c_key_set k (8 - pos - 1) (word_of_int divisors)) r,
            path_length := path_length ob + 1\<rparr>)"

text \<open>
  \<open>orbit_t::path\<close>: the loop over \<open>i < path_length\<close>, here with the remaining number of
  rounds as the recursion argument.  Dereferencing a null \<open>curr\<close> is \<open>None\<close>.
\<close>

fun path_loop :: "orbit_node_t \<Rightarrow> orbit_node_t option \<Rightarrow> nat \<Rightarrow> nat \<Rightarrow> 8 word list option" where
  "path_loop rt cur i 0 = Some []"
| "path_loop rt cur i (Suc n) =
     (let pos = i mod 8;
          curr' = (if pos = 0 then (case cur of Some c \<Rightarrow> next_node c | None \<Rightarrow> Some rt)
                   else cur)
      in case curr' of
           None \<Rightarrow> None
         | Some c \<Rightarrow>
             (case path_loop rt curr' (i + 1) n of
                None \<Rightarrow> None
              | Some rest \<Rightarrow> Some (c_key_get (key c) (8 - pos - 1) # rest)))"

definition path_elems :: "orbit_t \<Rightarrow> 8 word list option" where
  "path_elems ob = path_loop (root ob) None 0 (path_length ob)"

definition orbit_eq :: "orbit_t \<Rightarrow> orbit_t \<Rightarrow> bool" where
  "orbit_eq lo ro = node_eq (root lo) (root ro)"

definition orbit_less :: "orbit_t \<Rightarrow> orbit_t \<Rightarrow> bool" where
  "orbit_less lo ro = node_less (root lo) (root ro)"

definition orbit_greater :: "orbit_t \<Rightarrow> orbit_t \<Rightarrow> bool" where
  "orbit_greater lo ro = node_greater (root lo) (root ro)"

text \<open>The block chain of an orbit: the keys of its nodes, root first.\<close>

fun chain :: "orbit_node_t \<Rightarrow> 64 word list" where
  "chain (Orbit_node k None) = [k]"
| "chain (Orbit_node k (Some n)) = k # chain n"

section \<open>\<open>t_path<P>\<close>\<close>

record t_path =
  int_sign :: int
  start_int :: int
  max_int :: int
  orb :: orbit_t
  path_factors :: int
  ec_factors :: int
  next_factors :: int
  ec_len :: int
  error_mask :: int

text \<open>
  The \<open>int\<close> members that count factors of two are unbounded integers here; a count
  of \<open>2 ^ 31\<close> factors is out of reach of either domain in practice.

  \<open>zeroize\<close> clears every member and the orbit; \<open>init\<close> is \<open>zeroize\<close> followed by its
  two assignments (\<open>path_init\<close>).  The default constructor is \<open>path_init 0\<close>.
\<close>

definition zeroize :: t_path where
  "zeroize = \<lparr>int_sign = 0, start_int = 0, max_int = 0, orb = orbit_init, path_factors = 0,
               ec_factors = 0, next_factors = 0, ec_len = 0, error_mask = 0\<rparr>"

definition path_init :: "int \<Rightarrow> t_path" where
  "path_init start = zeroize\<lparr>start_int := start, int_sign := sgn start\<rparr>"

definition connection :: "domain \<Rightarrow> int \<Rightarrow> int" where
  "connection d terminus = p_add d (p_mul d terminus multiplier) addend"

text \<open>
  The \<open>while\<close> loop of \<open>term\<close>: it does not end on \<open>i = 0\<close>, so it is a partial function
  and \<open>None\<close> is "does not return".  The result is the pair (\<open>facts\<close>, \<open>i\<close> as left in the
  reference argument).
\<close>

partial_function (option) term_loop :: "int \<Rightarrow> int \<Rightarrow> (int \<times> int) option" where
  [code]: "term_loop i facts =
     (if trem i divisor = 0 then term_loop (tdiv i divisor) (facts + 1) else Some (facts, i))"

definition path_term :: "int \<Rightarrow> (int \<times> int) option" where
  "path_term i = (if i \<noteq> 0 then term_loop i 0 else Some (0, i))"

partial_function (option) factor_loop :: "domain \<Rightarrow> int \<Rightarrow> int \<Rightarrow> int \<Rightarrow> (int \<times> int) option" where
  [code]: "factor_loop d branch start facts =
     (if trem branch divisor = 0 then
        (if p_abs d (tdiv branch divisor) < p_abs d start
         then Some (facts + 1, tdiv branch divisor)
         else factor_loop d (tdiv branch divisor) start (facts + 1))
      else Some (facts, branch))"

definition factor :: "domain \<Rightarrow> int \<Rightarrow> int \<Rightarrow> (int \<times> int) option" where
  "factor d branch start = factor_loop d branch start 0"

text \<open>
  One round of the \<open>do ... while\<close> loop of \<open>setpath\<close>, up to its closing test:
  \<open>Broke\<close> is the \<open>break\<close> of the overflow branch, \<open>Returned\<close> the \<open>return\<close> of speed
  mode, \<open>Continue\<close> the end of the body.  The \<open>int\<close> is \<open>current_int\<close>.
\<close>

datatype flow_ctl = Continue t_path int | Broke t_path int | Returned t_path

definition setpath_body :: "domain \<Rightarrow> bool \<Rightarrow> int \<Rightarrow> int \<Rightarrow> t_path \<Rightarrow> int \<Rightarrow> flow_ctl option" where
  "setpath_body d speed max_factors start p current_int =
     (let last_int = current_int;
          conn = connection d current_int
      in if int_sign p \<noteq> sgn conn
         then Some (Broke (p\<lparr>error_mask := error_mask p OR overflow\<rparr>) last_int)
         else
           (let p1 = (if conn > max_int p then p\<lparr>max_int := conn\<rparr> else p)
            in case factor d conn start of
                 None \<Rightarrow> None
               | Some (leg, branch) \<Rightarrow>
                   (let p2 = p1\<lparr>path_factors := path_factors p1 + leg\<rparr>
                    in if speed \<and> path_factors p2 > max_factors
                       then Some (Returned p2)
                       else Some (Continue (p2\<lparr>orb := orbit_append (orb p2) leg\<rparr>) branch))))"

partial_function (option) setpath_loop ::
    "domain \<Rightarrow> bool \<Rightarrow> int \<Rightarrow> int \<Rightarrow> t_path \<Rightarrow> int \<Rightarrow> flow_ctl option" where
  [code]: "setpath_loop d speed max_factors start p current_int =
     (case setpath_body d speed max_factors start p current_int of
        None \<Rightarrow> None
      | Some r \<Rightarrow>
          (case r of
             Continue p' c' \<Rightarrow>
               (if p_abs d c' > p_abs d start
                then setpath_loop d speed max_factors start p' c'
                else Some (Continue p' c'))
           | Broke p' c' \<Rightarrow> Some (Broke p' c')
           | Returned p' \<Rightarrow> Some (Returned p')))"

text \<open>
  The statements of \<open>setpath\<close> after the \<open>if\<close>/\<open>else\<close>.  Its two \<open>while\<close> loops that
  divide the divisor out are the loop of \<open>term\<close>, the first counting into
  \<open>ec_factors\<close>, the second with its count unused.
\<close>

definition setpath_tail :: "domain \<Rightarrow> int \<Rightarrow> t_path \<Rightarrow> int \<Rightarrow> t_path option" where
  "setpath_tail d start p current_int =
     (let p1 = p\<lparr>ec_factors := path_factors p\<rparr>
      in if current_int \<noteq> 0 then
           (case term_loop current_int (ec_factors p1) of
              None \<Rightarrow> None
            | Some (ecf, c1) \<Rightarrow>
                (case term_loop start 0 of
                   None \<Rightarrow> None
                 | Some (n2, c2) \<Rightarrow>
                     (case path_term (connection d c2) of
                        None \<Rightarrow> None
                      | Some (nf, c3) \<Rightarrow> Some (p1\<lparr>ec_factors := ecf, next_factors := nf\<rparr>))))
         else Some p1)"

definition setpath :: "domain \<Rightarrow> bool \<Rightarrow> int \<Rightarrow> int \<Rightarrow> t_path option" where
  "setpath d speed max_factors start =
     (let p0 = (path_init start)\<lparr>max_int := start\<rparr>
      in if trem start divisor = 0 then
           setpath_tail d start
             (p0\<lparr>orb := orbit_append (orb p0) 1, path_factors := path_factors p0 + 1\<rparr>) start
         else
           (case setpath_loop d speed max_factors start (p0\<lparr>orb := orbit_append (orb p0) 0\<rparr>) start of
              None \<Rightarrow> None
            | Some r \<Rightarrow>
                (case r of
                   Continue p' c' \<Rightarrow> setpath_tail d start p' c'
                 | Broke p' c' \<Rightarrow> setpath_tail d start p' c'
                 | Returned p' \<Rightarrow> Some p')))"

definition pathLength :: "t_path \<Rightarrow> nat" where
  "pathLength p = path_length (orb p)"

definition pathFactors :: "t_path \<Rightarrow> int" where
  "pathFactors p = path_factors p"

text \<open>The object \<open>setpath\<close> enters its loop with, for an odd \<open>start\<close>.\<close>

definition loop_entry :: "int \<Rightarrow> t_path" where
  "loop_entry start =
     (path_init start)\<lparr>max_int := start,
        orb := orbit_append (orb ((path_init start)\<lparr>max_int := start\<rparr>)) 0\<rparr>"

text \<open>
  The states the loop of \<open>setpath\<close> passes through at the head of a round, for an odd
  \<open>start\<close>: the object and \<open>current_int\<close>.  A further round is made when the body ran
  to its end and the closing test \<open>abs(current_int) > abs(start)\<close> held.
\<close>

inductive loop_state :: "domain \<Rightarrow> bool \<Rightarrow> int \<Rightarrow> int \<Rightarrow> t_path \<Rightarrow> int \<Rightarrow> bool"
  for d :: domain and speed :: bool and max_factors :: int and start :: int where
  entry: "trem start divisor \<noteq> 0 \<Longrightarrow>
     loop_state d speed max_factors start (loop_entry start) start"
| round: "loop_state d speed max_factors start p c \<Longrightarrow>
     setpath_body d speed max_factors start p c = Some (Continue p' c') \<Longrightarrow>
     p_abs d c' > p_abs d start \<Longrightarrow>
     loop_state d speed max_factors start p' c'"

code_pred loop_state .

text \<open>\<open>std::to_string\<close> (and \<open>mpz_class::get_str\<close>) of \<open>to_str\<close>: the decimal numeral.\<close>

definition digit_char :: "nat \<Rightarrow> char" where
  "digit_char n = char_of (48 + n)"

function dec_str :: "nat \<Rightarrow> string" where
  "dec_str n = (if n < 10 then [digit_char n] else dec_str (n div 10) @ [digit_char (n mod 10)])"
  by pat_completeness auto
termination
  by (relation "measure id") auto

definition to_str :: "int \<Rightarrow> string" where
  "to_str i = (if i < 0 then CHR ''-'' # dec_str (nat (- i)) else dec_str (nat i))"

text \<open>\<open>flow\<close>: the \<open>while ( digits-- )\<close> loop runs \<open>digits\<close> rounds once \<open>digits\<close> is not negative.\<close>

fun flow_loop :: "domain \<Rightarrow> nat \<Rightarrow> int \<Rightarrow> int \<Rightarrow> string \<Rightarrow> string" where
  "flow_loop d 0 factors remainder flowrep = flowrep"
| "flow_loop d (Suc n) factors remainder flowrep =
     flow_loop d n (tdiv factors divisor) (trem (tdiv factors divisor) divisor)
       (flowrep @ to_str (p_abs d remainder))"

definition flow_sign :: "int \<Rightarrow> int \<Rightarrow> string" where
  "flow_sign digits sign =
     (if digits \<noteq> 0 \<and> sign \<noteq> 0 then (if sign > 0 then ''+'' else ''-'') else [])"

definition flow :: "domain \<Rightarrow> t_path \<Rightarrow> int \<Rightarrow> string" where
  "flow d p digits =
     (let digits1 = (if digits < 0 then ec_len p else digits);
          factors = tdiv (start_int p) multiplier;
          remainder = trem (start_int p) (divisor * multiplier);
          digits2 = (if digits1 < 0 then 0 else digits1)
      in flow_loop d (nat digits2) factors remainder (flow_sign digits2 (int_sign p)))"

text \<open>
  \<open>std::string::operator[]\<close>: the index \<open>size()\<close> reads the terminating \<open>'\0'\<close>;
  \<open>parse\<close> reads no index beyond it.
\<close>

definition char_at :: "string \<Rightarrow> nat \<Rightarrow> char" where
  "char_at input pos = (if pos < length input then input ! pos else CHR 0x00)"

definition is_signed :: "string \<Rightarrow> bool" where
  "is_signed input = (char_at input 0 = CHR ''+'' \<or> char_at input 0 = CHR ''-'')"

definition get_ec_len :: "string \<Rightarrow> int" where
  "get_ec_len input = (if is_signed input then int (length input) - 1 else int (length input))"

text \<open>
  The \<open>while ( --strlen > 0 )\<close> loop of \<open>parse\<close>.  A \<open>return 0\<close> inside the loop is the
  result \<open>0\<close>; leaving the loop gives \<open>local * eq_sign\<close>.
\<close>

function parse_loop ::
    "domain \<Rightarrow> string \<Rightarrow> int \<Rightarrow> nat \<Rightarrow> int \<Rightarrow> int \<Rightarrow> bool \<Rightarrow> int \<Rightarrow> int" where
  "parse_loop d input strlen pos local mult rollover eq_sign =
     (if strlen - 1 > 0 then
        (if char_at input pos = CHR ''1'' then
           (if rollover \<or> p_abs d (p_mul d mult 2) < mult then 0
            else parse_loop d input (strlen - 1) (pos + 1) (p_add d local mult) (p_mul d mult 2)
                   (rollover \<or> p_abs d (p_mul d mult 2) < mult) eq_sign)
         else if char_at input pos \<noteq> CHR ''0'' then 0
         else parse_loop d input (strlen - 1) (pos + 1) local (p_mul d mult 2)
                (rollover \<or> p_abs d (p_mul d mult 2) < mult) eq_sign)
      else p_mul d local eq_sign)"
  by pat_completeness auto
termination
  by (relation "measure (\<lambda>(d, input, strlen, pos, local, mult, rollover, eq_sign). nat strlen)") auto

text \<open>
  \<open>parse\<close>.  The tests \<open>ch < '0' || ch > '5'\<close> are on the character code; a byte above
  127 fails one of them whether \<open>char\<close> is signed or not.
\<close>

definition parse :: "domain \<Rightarrow> string \<Rightarrow> int" where
  "parse d input =
     (let signed = is_signed input;
          eq_sign = (if signed \<and> char_at input 0 = CHR ''-'' then - 1 else 1);
          ch = (if signed then char_at input 1 else char_at input 0);
          pos = (if signed then 2 else 1);
          strlen = (if signed then int (length input) - 1 else int (length input))
      in if (of_char ch :: nat) < of_char CHR ''0'' \<or> (of_char ch :: nat) > of_char CHR ''5'' then 0
         else parse_loop d input strlen pos (int (of_char ch) - int (of_char CHR ''0''))
                (multiplier * divisor) False eq_sign)"

text \<open>
  \<open>ancestry\<close>: the result is the returned parent with the value left in the reference
  argument \<open>scale\<close> (a \<open>long\<close>, whatever \<open>P\<close> is).
\<close>

definition probe :: "domain \<Rightarrow> int \<Rightarrow> int \<Rightarrow> int" where
  "probe d start scale =
     tdiv (p_sub d (p_mul d (p_mul d scale start) divisor) addend) multiplier"

partial_function (option) ancestry_loop :: "domain \<Rightarrow> int \<Rightarrow> int \<Rightarrow> (int \<times> int) option" where
  [code]: "ancestry_loop d start scale =
     (case path_term (connection d (probe d start scale)) of
        None \<Rightarrow> None
      | Some (facts, child) \<Rightarrow>
          (if start = child then Some (probe d start scale, scale)
           else ancestry_loop d start (wrap Int64 (scale + 1))))"

definition ancestry :: "domain \<Rightarrow> t_path \<Rightarrow> int \<Rightarrow> (int \<times> int) option" where
  "ancestry d p scale =
     (if start_int p = p_mul d (tdiv (start_int p) divisor) divisor then Some (0, scale)
      else if start_int p = p_mul d (tdiv (start_int p) multiplier) multiplier then Some (0, scale)
      else ancestry_loop d (start_int p) scale)"

text \<open>\<open>t_path::operator==\<close> and \<open>operator!=\<close>.\<close>

definition path_eq :: "t_path \<Rightarrow> t_path \<Rightarrow> bool" where
  "path_eq lp rp =
     (if path_length (orb lp) \<noteq> path_length (orb rp) then False else orbit_eq (orb lp) (orb rp))"

definition path_ne :: "t_path \<Rightarrow> t_path \<Rightarrow> bool" where
  "path_ne lp rp = (\<not> orbit_eq (orb lp) (orb rp))"

section \<open>\<open>btree\<close>\<close>

text \<open>
  \<open>struct node\<close> with its two nullable children, and \<open>class btree\<close>.  The counters
  (\<open>ulong count\<close>, \<open>ulong node_count\<close>, \<open>long sum\<close>) are natural numbers: they only count
  insertions, and stay below \<open>2 ^ 63\<close> for any run of fewer insertions than that.
  \<open>new node\<close> always yields a node.
\<close>

datatype node = Node (key_value: int) (count: nat) (left: "node option") (right: "node option")

record btree =
  tree_root :: "node option"
  node_count :: nat

definition btree_zeroize :: btree where
  "btree_zeroize = \<lparr>tree_root = None, node_count = 0\<rparr>"

definition new_leaf :: "int \<Rightarrow> node" where
  "new_leaf k = Node k 1 None None"

text \<open>The protected \<open>insert( key, leaf )\<close>; the member \<open>node_count\<close> is passed through.\<close>

fun insert_node :: "int \<Rightarrow> node \<Rightarrow> nat \<Rightarrow> node \<times> nat" where
  "insert_node k (Node kv c l r) nc =
     (if k = kv then (Node kv (c + 1) l r, nc)
      else if k > kv then
        (case r of
           Some rn \<Rightarrow> (case insert_node k rn nc of (rn', nc') \<Rightarrow> (Node kv c l (Some rn'), nc'))
         | None \<Rightarrow> (Node kv c l (Some (new_leaf k)), nc + 1))
      else
        (case l of
           Some ln \<Rightarrow> (case insert_node k ln nc of (ln', nc') \<Rightarrow> (Node kv c (Some ln') r, nc'))
         | None \<Rightarrow> (Node kv c (Some (new_leaf k)) r, nc + 1)))"

definition btree_insert :: "btree \<Rightarrow> int \<Rightarrow> btree" where
  "btree_insert t k =
     (case tree_root t of
        Some rt \<Rightarrow>
          (case insert_node k rt (node_count t) of
             (rt', nc') \<Rightarrow> \<lparr>tree_root = Some rt', node_count = nc'\<rparr>)
      | None \<Rightarrow> \<lparr>tree_root = Some (new_leaf k), node_count = 1\<rparr>)"

text \<open>
  \<open>traverse\<close>: \<open>acc\<close> is the reference argument \<open>sum\<close>, returned at the end.  The callback
  \<open>func\<close> acts on the world outside the tree, a state \<open>'w\<close> passed through; a null
  \<open>func\<close> is \<open>None\<close>.
\<close>

fun traverse ::
    "node option \<Rightarrow> nat \<Rightarrow> (int \<Rightarrow> nat \<Rightarrow> 'w \<Rightarrow> 'w) option \<Rightarrow> bool \<Rightarrow> 'w \<Rightarrow> nat \<times> 'w" where
  "traverse None acc func forward w = (acc, w)"
| "traverse (Some (Node kv c l r)) acc func forward w =
     (case traverse (if forward then l else r) acc func forward w of
        (s1, w1) \<Rightarrow>
          traverse (if forward then r else l) (s1 + c) func forward
            (case func of Some f \<Rightarrow> f kv c w1 | None \<Rightarrow> w1))"

definition constForwardIterator :: "btree \<Rightarrow> (int \<Rightarrow> nat \<Rightarrow> 'w \<Rightarrow> 'w) option \<Rightarrow> 'w \<Rightarrow> nat \<times> 'w" where
  "constForwardIterator t func w = traverse (tree_root t) 0 func True w"

definition constReverseIterator :: "btree \<Rightarrow> (int \<Rightarrow> nat \<Rightarrow> 'w \<Rightarrow> 'w) option \<Rightarrow> 'w \<Rightarrow> nat \<times> 'w" where
  "constReverseIterator t func w = traverse (tree_root t) 0 func False w"

definition nodes :: "btree \<Rightarrow> nat" where
  "nodes t = node_count t"

section \<open>Notions used in the statements and proofs\<close>

text \<open>\<open>getpath\<close> hands out \<open>orb.path()\<close>; here as the sequence of stored numbers, before rendering.\<close>

definition getpath_elems :: "t_path \<Rightarrow> 8 word list option" where
  "getpath_elems p = path_elems (orb p)"

text \<open>What the claims read off a computed path: the orbit, \<open>pathLength()\<close> and \<open>pathFactors()\<close>.\<close>

definition summary :: "t_path \<Rightarrow> 8 word list option \<times> nat \<times> int" where
  "summary p = (getpath_elems p, pathLength p, pathFactors p)"

text \<open>The orbit built by appending the counts \<open>cs\<close>, in order, to a fresh \<open>orbit_t\<close>.\<close>

definition orbit_of :: "int list \<Rightarrow> orbit_t" where
  "orbit_of cs = foldl orbit_append orbit_init cs"

text \<open>
  For reasoning about a (sub)tree given by a nullable pointer: its keys, the sum of its
  counts, and the search-tree ordering of its keys.
\<close>

fun tree_keys :: "node option \<Rightarrow> int set" where
  "tree_keys None = {}"
| "tree_keys (Some (Node kv c l r)) = insert kv (tree_keys l \<union> tree_keys r)"

fun tree_total :: "node option \<Rightarrow> nat" where
  "tree_total None = 0"
| "tree_total (Some (Node kv c l r)) = tree_total l + c + tree_total r"

fun ordered :: "node option \<Rightarrow> bool" where
  "ordered None = True"
| "ordered (Some (Node kv c l r)) =
     (ordered l \<and> ordered r \<and> (\<forall>k \<in> tree_keys l. k < kv) \<and> (\<forall>k \<in> tree_keys r. kv < k))"

text \<open>What holds of the tree after the keys \<open>ks\<close> have been inserted, in that order.\<close>

definition tree_inv :: "btree \<Rightarrow> int list \<Rightarrow> bool" where
  "tree_inv t ks = (ordered (tree_root t) \<and> tree_keys (tree_root t) = set ks
      \<and> tree_total (tree_root t) = length ks \<and> node_count t = card (set ks))"

text \<open>
  The state of an orbit that holds the bytes \<open>xs\<close>: as many blocks as \<open>xs\<close> needs (one
  at least), and the byte at position \<open>i\<close> in block \<open>i div 8\<close>, at byte \<open>7 - i mod 8\<close>.
\<close>

definition orbit_inv :: "orbit_t \<Rightarrow> 8 word list \<Rightarrow> bool" where
  "orbit_inv ob xs =
     (path_length ob = length xs
      \<and> length (chain (root ob)) = max 1 ((length xs + 7) div 8)
      \<and> (\<forall>i < length xs. c_key_get (chain (root ob) ! (i div 8)) (7 - i mod 8) = xs ! i))"

section \<open>The parse of a class string, in the words of the specification\<close>

text \<open>
  The weighted sum over the symbols after the first: the multiplier \<open>m\<close> doubles per
  position and is added at each \<open>'1'\<close>.
\<close>

fun weighted_sum :: "int \<Rightarrow> string \<Rightarrow> int" where
  "weighted_sum m [] = 0"
| "weighted_sum m (c # cs) = (if c = CHR ''1'' then m else 0) + weighted_sum (2 * m) cs"

text \<open>
  "The doubling multiplier overflows while a \<open>'1'\<close> digit still needs to be added": at
  some \<open>'1'\<close> the double of the multiplier of its position is no value of the domain.
\<close>

fun overflow_at_one :: "domain \<Rightarrow> int \<Rightarrow> string \<Rightarrow> bool" where
  "overflow_at_one d m [] = False"
| "overflow_at_one d m (c # cs) =
     (if c = CHR ''1'' \<and> \<not> in_dom d (2 * m) then True else overflow_at_one d (2 * m) cs)"

definition first_symbol_ok :: "char \<Rightarrow> bool" where
  "first_symbol_ok c =
     ((of_char CHR ''0'' :: nat) \<le> of_char c \<and> (of_char c :: nat) \<le> of_char CHR ''5'')"

definition binary_symbol :: "char \<Rightarrow> bool" where
  "binary_symbol c = (c = CHR ''0'' \<or> c = CHR ''1'')"

definition parse_spec :: "domain \<Rightarrow> string \<Rightarrow> int" where
  "parse_spec d s =
     (let signed = (s \<noteq> [] \<and> (hd s = CHR ''+'' \<or> hd s = CHR ''-''));
          sign = (if signed \<and> hd s = CHR ''-'' then - 1 else 1);
          body = (if signed then tl s else s)
      in if body = [] then 0
         else if \<not> first_symbol_ok (hd body) then 0
         else if \<not> list_all binary_symbol (tl body) then 0
         else if overflow_at_one d (multiplier * divisor) (tl body) then 0
         else sign * (int (of_char (hd body)) - int (of_char CHR ''0'')
                       + weighted_sum (multiplier * divisor) (tl body)))"

section \<open>Facts about the arithmetic and the loops\<close>

lemma trem_even: "trem n divisor = 0 \<longleftrightarrow> even n"
  by (auto simp: trem_def divisor_def sgn_if abs_if mod_2_eq_odd split: if_splits)

lemma tdiv_even_step:
  assumes "trem i divisor = 0" "i \<noteq> 0"
  shows "tdiv i divisor \<noteq> 0 \<and> \<bar>tdiv i divisor\<bar> < \<bar>i\<bar>"
proof -
  from assms have e: "even i" by (simp add: trem_even)
  then obtain k where k: "i = 2 * k" by (auto elim: evenE)
  with assms have "k \<noteq> 0" by auto
  then show ?thesis
    by (auto simp: tdiv_def divisor_def k sgn_if abs_if)
qed

text \<open>The loop of \<open>term\<close> returns on every argument other than zero.\<close>

lemma term_loop_total: "i \<noteq> 0 \<Longrightarrow> \<exists>f j. term_loop i facts = Some (f, j)"
proof (induction "nat \<bar>i\<bar>" arbitrary: i facts rule: less_induct)
  case less
  show ?case
  proof (cases "trem i divisor = 0")
    case True
    with less.prems have s: "tdiv i divisor \<noteq> 0" "\<bar>tdiv i divisor\<bar> < \<bar>i\<bar>"
      using tdiv_even_step by auto
    then have "nat \<bar>tdiv i divisor\<bar> < nat \<bar>i\<bar>" by simp
    from less.hyps [OF this s(1), of "facts + 1"] True show ?thesis
      by (subst term_loop.simps) simp
  next
    case False
    then show ?thesis by (subst term_loop.simps) simp
  qed
qed

lemma path_term_total: "\<exists>f j. path_term i = Some (f, j)"
  using term_loop_total [of i 0] by (auto simp: path_term_def)

text \<open>
  The closing statements of \<open>setpath\<close> always return, and touch only \<open>ec_factors\<close> and
  \<open>next_factors\<close>.
\<close>

lemma setpath_tail_total:
  assumes "c \<noteq> 0 \<longrightarrow> start \<noteq> 0"
  shows "\<exists>q. setpath_tail d start p c = Some q \<and> orb q = orb p
           \<and> path_factors q = path_factors p \<and> error_mask q = error_mask p
           \<and> max_int q = max_int p \<and> start_int q = start_int p \<and> int_sign q = int_sign p"
proof (cases "c = 0")
  case True
  then show ?thesis by (simp add: setpath_tail_def)
next
  case False
  with assms have st: "start \<noteq> 0" by simp
  obtain f1 j1 where a: "term_loop c (path_factors p) = Some (f1, j1)"
    using term_loop_total [OF False] by blast
  obtain f2 j2 where b: "term_loop start 0 = Some (f2, j2)"
    using term_loop_total [OF st] by blast
  obtain f3 j3 where c: "path_term (connection d j2) = Some (f3, j3)"
    using path_term_total by blast
  show ?thesis using False a b c by (simp add: setpath_tail_def)
qed

lemma elems_one: "path_elems (orbit_append orbit_init 1) = Some [1]"
  by (simp add: path_elems_def orbit_append_def orbit_init_def c_key_get_def c_key_set_def)

section \<open>The path of an even integer\<close>

text \<open>
  Claim C3.  For every even starting integer \<open>n\<close>, in either integer domain, in or out
  of speed mode and for every factor budget, \<open>setpath\<close> returns, and the object it
  leaves has the orbit \<open>[1]\<close>, path length 1 and path-factor total 1.
\<close>

theorem setpath_even:
  assumes "even n"
  shows "\<exists>p. setpath d speed max_factors n = Some p \<and> getpath_elems p = Some [1]
           \<and> pathLength p = 1 \<and> pathFactors p = 1"
proof -
  let ?p = "(path_init n)\<lparr>max_int := n\<rparr>"
  let ?q = "?p\<lparr>orb := orbit_append (orb ?p) 1, path_factors := path_factors ?p + 1\<rparr>"
  from assms have t: "trem n divisor = 0" by (simp add: trem_even)
  then have s: "setpath d speed max_factors n = setpath_tail d n ?q n"
    by (simp add: setpath_def Let_def)
  obtain r where r: "setpath_tail d n ?q n = Some r" "orb r = orb ?q"
      "path_factors r = path_factors ?q"
    using setpath_tail_total [of n n d ?q] by auto
  have "orb ?q = orbit_append orbit_init 1"
    by (simp add: path_init_def zeroize_def)
  moreover have "path_factors ?q = 1" by (simp add: path_init_def zeroize_def)
  moreover have "path_length (orbit_append orbit_init 1) = 1"
    by (simp add: orbit_append_def orbit_init_def)
  ultimately show ?thesis
    using s r elems_one
    by (simp add: getpath_elems_def pathLength_def pathFactors_def)
qed

theorem setpath_even_witness:
  "even (8 :: int) \<and> (\<exists>p. setpath Int64 False 0 8 = Some p \<and> getpath_elems p = Some [1]
           \<and> pathLength p = 1 \<and> pathFactors p = 1)"
  using setpath_even [of 8 Int64 False 0] by simp

section \<open>\<open>flow\<close> with no digits\<close>

text \<open>
  Claim C8.  For every path object, \<open>flow(0)\<close> is the empty string: no digit is emitted
  and no sign is prefixed, since the sign prefix is empty exactly when the digit count
  is zero or the stored sign is zero.
\<close>

theorem flow_zero: "flow d p 0 = [] \<and> flow_sign 0 (int_sign p) = []
   \<and> (flow_sign digits sign = [] \<longleftrightarrow> (digits = 0 \<or> sign = 0))"
  by (simp add: flow_def flow_sign_def)

section \<open>\<open>ancestry\<close> of multiples of the divisor or the multiplier\<close>

lemma tdiv_mult_cancel: "k dvd s \<Longrightarrow> 0 < k \<Longrightarrow> tdiv s k * k = s"
  by (auto simp: tdiv_def sgn_if abs_if)

lemma wrap_in_dom: "in_dom d x \<Longrightarrow> wrap d x = x"
  by (cases d) (auto simp: wrap_def in_dom_def)

lemma start_of_3: "map_option start_int (setpath Int64 False 0 3) = Some 3"
  by code_simp

text \<open>
  Claim C7.  For every path object whose starting integer (a value of the domain) is
  divisible by the divisor 2 or by the multiplier 3, \<open>ancestry\<close> returns 0, "no
  parent", from one of its two opening tests: the probing loop is not entered and
  \<open>scale\<close> is left as it was passed.
\<close>

theorem ancestry_no_parent:
  assumes "in_dom d (start_int p)"
    and "divisor dvd start_int p \<or> multiplier dvd start_int p"
  shows "ancestry d p scale = Some (0, scale)"
proof -
  from assms(2) have "tdiv (start_int p) divisor * divisor = start_int p
      \<or> tdiv (start_int p) multiplier * multiplier = start_int p"
    using tdiv_mult_cancel [of divisor "start_int p"] tdiv_mult_cancel [of multiplier "start_int p"]
    by (auto simp: divisor_def multiplier_def)
  with assms(1) have "start_int p = p_mul d (tdiv (start_int p) divisor) divisor
      \<or> start_int p = p_mul d (tdiv (start_int p) multiplier) multiplier"
    by (auto simp: p_mul_def wrap_in_dom)
  then show ?thesis by (auto simp: ancestry_def)
qed

text \<open>In particular the path computed for 3 has no parent.\<close>

theorem ancestry_of_3:
  "\<exists>p. setpath Int64 False 0 3 = Some p \<and> in_dom Int64 (start_int p)
      \<and> (divisor dvd start_int p \<or> multiplier dvd start_int p)
      \<and> ancestry Int64 p 1 = Some (0, 1)"
proof -
  obtain p where p: "setpath Int64 False 0 3 = Some p" "start_int p = 3"
    using start_of_3 by (cases "setpath Int64 False 0 3") auto
  have h1: "in_dom Int64 (start_int p)" by (simp add: p in_dom_def)
  have h2: "divisor dvd start_int p \<or> multiplier dvd start_int p"
    by (simp add: p multiplier_def)
  from ancestry_no_parent [OF h1 h2, of 1] p h1 h2 show ?thesis by blast
qed

section \<open>Comparing orbits\<close>

lemma node_prefix_cmp:
  assumes "prefix (chain a) (chain b) \<or> prefix (chain b) (chain a)"
  shows "node_eq a b \<and> \<not> node_less a b \<and> \<not> node_greater a b"
  using assms
proof (induction a b rule: node_eq.induct)
  case (1 k lop rk rop)
  then show ?case
    by (cases lop; cases rop) auto
qed

text \<open>
  Claim C2.  Whenever the block chain of one orbit is a prefix of the block chain of
  the other (one chain ends while all blocks compared so far are equal), \<open>==\<close> is
  true and both \<open><\<close> and \<open>>\<close> are false: a shorter chain is not ordered below the
  longer one.
\<close>

theorem orbit_prefix_equal:
  assumes "prefix (chain (root a)) (chain (root b)) \<or> prefix (chain (root b)) (chain (root a))"
  shows "orbit_eq a b \<and> \<not> orbit_less a b \<and> \<not> orbit_greater a b"
  using node_prefix_cmp [OF assms] by (simp add: orbit_eq_def orbit_less_def orbit_greater_def)

text \<open>An orbit of 8 counts (one block) against its extension by a ninth count (two blocks).\<close>

theorem orbit_prefix_equal_8_9:
  "(prefix (chain (root (orbit_of [0, 1, 1, 1, 1, 1, 1, 1])))
           (chain (root (orbit_of [0, 1, 1, 1, 1, 1, 1, 1, 2])))
     \<or> prefix (chain (root (orbit_of [0, 1, 1, 1, 1, 1, 1, 1, 2])))
              (chain (root (orbit_of [0, 1, 1, 1, 1, 1, 1, 1]))))
   \<and> path_length (orbit_of [0, 1, 1, 1, 1, 1, 1, 1])
       \<noteq> path_length (orbit_of [0, 1, 1, 1, 1, 1, 1, 1, 2])
   \<and> orbit_eq (orbit_of [0, 1, 1, 1, 1, 1, 1, 1]) (orbit_of [0, 1, 1, 1, 1, 1, 1, 1, 2])
   \<and> \<not> orbit_less (orbit_of [0, 1, 1, 1, 1, 1, 1, 1]) (orbit_of [0, 1, 1, 1, 1, 1, 1, 1, 2])
   \<and> \<not> orbit_greater (orbit_of [0, 1, 1, 1, 1, 1, 1, 1]) (orbit_of [0, 1, 1, 1, 1, 1, 1, 1, 2])"
proof -
  have h: "prefix (chain (root (orbit_of [0, 1, 1, 1, 1, 1, 1, 1])))
                  (chain (root (orbit_of [0, 1, 1, 1, 1, 1, 1, 1, 2])))"
    by code_simp
  have l: "path_length (orbit_of [0, 1, 1, 1, 1, 1, 1, 1])
       \<noteq> path_length (orbit_of [0, 1, 1, 1, 1, 1, 1, 1, 2])"
    by code_simp
  from orbit_prefix_equal [OF disjI1 [OF h]] h l show ?thesis by blast
qed

section \<open>\<open>==\<close> and \<open>!=\<close> on paths\<close>

lemma orb_of_overflowing:
  "map_option orb (setpath Int64 False 0 6148914691236517205)
     = Some \<lparr>root = Orbit_node 0 None, path_length = 1, orb_error_mask = 0\<rparr>"
  by code_simp

text \<open>
  Claim C9.  \<open>a == b\<close> holds exactly when the path lengths are equal and the orbits
  compare equal; \<open>a != b\<close> holds exactly when the orbits compare unequal, with no
  test of the lengths.  So for two paths of different path lengths whose block chains
  are prefix-equal, \<open>a == b\<close> and \<open>a != b\<close> are both false.
\<close>

theorem path_eq_ne:
  "(path_eq a b \<longleftrightarrow> path_length (orb a) = path_length (orb b) \<and> orbit_eq (orb a) (orb b))
   \<and> (path_ne a b \<longleftrightarrow> \<not> orbit_eq (orb a) (orb b))
   \<and> (path_length (orb a) \<noteq> path_length (orb b)
        \<and> (prefix (chain (root (orb a))) (chain (root (orb b)))
             \<or> prefix (chain (root (orb b))) (chain (root (orb a))))
       \<longrightarrow> \<not> path_eq a b \<and> \<not> path_ne a b)"
  using node_prefix_cmp [of "root (orb a)" "root (orb b)"]
  by (auto simp: path_eq_def path_ne_def orbit_eq_def)

text \<open>
  The default-constructed path (empty orbit) against the path of an \<open>int64_t\<close> start
  whose first connection overflows (orbit \<open>[0]\<close>): neither \<open>==\<close> nor \<open>!=\<close>.
\<close>

theorem path_eq_ne_both_false:
  "\<exists>b. setpath Int64 False 0 6148914691236517205 = Some b
      \<and> path_length (orb (path_init 0)) \<noteq> path_length (orb b)
      \<and> (prefix (chain (root (orb (path_init 0)))) (chain (root (orb b)))
           \<or> prefix (chain (root (orb b))) (chain (root (orb (path_init 0)))))
      \<and> \<not> path_eq (path_init 0) b \<and> \<not> path_ne (path_init 0) b"
proof -
  obtain b where b: "setpath Int64 False 0 6148914691236517205 = Some b"
      "orb b = \<lparr>root = Orbit_node 0 None, path_length = 1, orb_error_mask = 0\<rparr>"
    using orb_of_overflowing by (cases "setpath Int64 False 0 6148914691236517205") auto
  have l: "path_length (orb (path_init 0)) \<noteq> path_length (orb b)"
    by (simp add: b path_init_def zeroize_def orbit_init_def)
  have c: "prefix (chain (root (orb (path_init 0)))) (chain (root (orb b)))"
    by (simp add: b path_init_def zeroize_def orbit_init_def)
  from path_eq_ne [of "path_init 0" b] b(1) l c show ?thesis by blast
qed

section \<open>The frequency tree\<close>

lemma traverse_sum: "fst (traverse t acc func forward w) = acc + tree_total t"
proof (induction t acc func forward w rule: traverse.induct)
  case (1 acc func forward w)
  then show ?case by simp
next
  case (2 kv c l r acc func forward w)
  then show ?case
    by (cases forward) (auto split: prod.splits)
qed

lemma finite_tree_keys: "finite (tree_keys t)"
  by (induction t rule: tree_keys.induct) auto

lemma insert_node_props:
  assumes "insert_node k n nc = (n', nc')" "ordered (Some n)"
  shows "tree_keys (Some n') = insert k (tree_keys (Some n)) \<and> ordered (Some n')
       \<and> tree_total (Some n') = tree_total (Some n) + 1
       \<and> nc' = (if k \<in> tree_keys (Some n) then nc else nc + 1)"
  using assms
proof (induction k n nc arbitrary: n' nc' rule: insert_node.induct)
  case (1 k kv c l r nc)
  show ?case
  proof (cases "k = kv")
    case True
    with 1 show ?thesis by auto
  next
    case False
    show ?thesis
    proof (cases "k > kv")
      case True
      show ?thesis
      proof (cases r)
        case None
        with 1 True False show ?thesis by (auto simp: new_leaf_def)
      next
        case (Some rn)
        obtain rn' m where ins: "insert_node k rn nc = (rn', m)" by fastforce
        from "1.prems" Some have o: "ordered (Some rn)" by simp
        from "1.IH"(1) [OF False True Some ins o]
        have ih: "tree_keys (Some rn') = insert k (tree_keys (Some rn))" "ordered (Some rn')"
          "tree_total (Some rn') = tree_total (Some rn) + 1"
          "m = (if k \<in> tree_keys (Some rn) then nc else nc + 1)" by auto
        from "1.prems" Some ins True False have n': "n' = Node kv c l (Some rn')" "nc' = m"
          by auto
        from "1.prems"(2) Some True have "k \<notin> tree_keys l" by auto
        with ih n' "1.prems"(2) Some True False show ?thesis by auto
      qed
    next
      case lt: False
      with False have klt: "k < kv" by simp
      show ?thesis
      proof (cases l)
        case None
        with 1 lt False show ?thesis by (auto simp: new_leaf_def)
      next
        case (Some ln)
        obtain ln' m where ins: "insert_node k ln nc = (ln', m)" by fastforce
        from "1.prems" Some have o: "ordered (Some ln)" by simp
        from "1.IH"(2) [OF False lt Some ins o]
        have ih: "tree_keys (Some ln') = insert k (tree_keys (Some ln))" "ordered (Some ln')"
          "tree_total (Some ln') = tree_total (Some ln) + 1"
          "m = (if k \<in> tree_keys (Some ln) then nc else nc + 1)" by auto
        from "1.prems" Some ins lt False have n': "n' = Node kv c (Some ln') r" "nc' = m"
          by auto
        from "1.prems"(2) Some klt have "k \<notin> tree_keys r" by auto
        with ih n' "1.prems"(2) Some klt False show ?thesis by auto
      qed
    qed
  qed
qed

lemma btree_insert_inv:
  assumes "tree_inv t ks"
  shows "tree_inv (btree_insert t k) (ks @ [k])"
proof (cases "tree_root t")
  case None
  with assms have "set ks = {}" by (simp add: tree_inv_def)
  with None show ?thesis
    by (simp add: tree_inv_def btree_insert_def new_leaf_def)
next
  case (Some rt)
  obtain rt' m where ins: "insert_node k rt (node_count t) = (rt', m)" by fastforce
  from assms Some have o: "ordered (Some rt)" by (simp add: tree_inv_def)
  note p = insert_node_props [OF ins o]
  from assms Some have ks: "tree_keys (Some rt) = set ks" "tree_total (Some rt) = length ks"
     "node_count t = card (set ks)" by (simp_all add: tree_inv_def)
  have "m = card (insert k (set ks))"
    using p ks by (simp add: card_insert_if)
  with p ks Some ins show ?thesis
    by (simp add: tree_inv_def btree_insert_def)
qed

lemma btree_inv_foldl: "tree_inv (foldl btree_insert btree_zeroize ks) ks"
proof (induction ks rule: rev_induct)
  case Nil
  show ?case by (simp add: tree_inv_def btree_zeroize_def)
next
  case (snoc k ks)
  then show ?case by (simp add: btree_insert_inv)
qed

text \<open>
  Claim C4.  After any sequence \<open>ks\<close> of insertions into an empty \<open>btree\<close>, the sum
  returned by the forward and by the reverse traversal is the number of insertions,
  whether \<open>func\<close> is null or not; \<open>nodes()\<close> is at most the number of insertions, and
  equal to it exactly when the inserted keys are pairwise distinct.
\<close>

theorem btree_totals:
  "fst (constForwardIterator (foldl btree_insert btree_zeroize ks) func w) = length ks
   \<and> fst (constReverseIterator (foldl btree_insert btree_zeroize ks) func w) = length ks
   \<and> nodes (foldl btree_insert btree_zeroize ks) \<le> length ks
   \<and> (nodes (foldl btree_insert btree_zeroize ks) = length ks \<longleftrightarrow> distinct ks)"
proof -
  let ?t = "foldl btree_insert btree_zeroize ks"
  have i: "tree_total (tree_root ?t) = length ks" "node_count ?t = card (set ks)"
    using btree_inv_foldl [of ks] by (simp_all add: tree_inv_def)
  have "card (set ks) \<le> length ks" by (rule card_length)
  moreover have "card (set ks) = length ks \<longleftrightarrow> distinct ks"
    using card_distinct distinct_card by blast
  ultimately show ?thesis using i
    by (simp add: constForwardIterator_def constReverseIterator_def nodes_def traverse_sum)
qed

section \<open>What \<open>append\<close> stores\<close>

lemma c_key_get_set:
  assumes "i < 8" "j < 8"
  shows "c_key_get (c_key_set k i v) j = (if i = j then v else c_key_get k j)"
proof (rule bit_word_eqI)
  fix n assume "n < LENGTH(8)"
  then have n: "n < 8" by simp
  show "bit (c_key_get (c_key_set k i v) j) n = bit (if i = j then v else c_key_get k j) n"
    using n assms
    by (auto simp add: c_key_get_def c_key_set_def bit_simps dest: bit_imp_le_length)
qed

lemma chain_not_Nil: "chain n \<noteq> []"
  by (induction n rule: chain.induct) auto

lemma chain_link_node: "chain (link_node n) = chain n @ [0]"
  by (induction n rule: link_node.induct) (auto simp: new_node_def)

lemma chain_upd_curr: "chain (upd_curr f n) = butlast (chain n) @ [f (last (chain n))]"
  by (induction f n rule: upd_curr.induct) (auto simp: chain_not_Nil)

lemma chain_key: "chain c = key c # tl (chain c)"
  by (induction c rule: chain.induct) auto

lemma chain_hd: "hd (chain c) = key c"
  by (induction c rule: chain.induct) auto

lemma chain_next:
  assumes "tl (chain c) \<noteq> []"
  shows "\<exists>c'. next_node c = Some c' \<and> chain c' = tl (chain c)"
  using assms by (induction c rule: chain.induct) auto

lemma path_loop_chain:
  assumes "i + n \<le> 8 * length (chain rt)"
      and "i = 0 \<longrightarrow> cur = None"
      and "i > 0 \<longrightarrow> (\<exists>c. cur = Some c \<and> chain c = drop ((i - 1) div 8) (chain rt))"
  shows "path_loop rt cur i n =
           Some (map (\<lambda>j. c_key_get (chain rt ! (j div 8)) (7 - j mod 8)) [i..<i + n])"
  using assms
proof (induction n arbitrary: i cur)
  case 0
  then show ?case by simp
next
  case (Suc n)
  let ?ks = "chain rt"
  let ?cur' = "if i mod 8 = 0 then (case cur of Some c \<Rightarrow> next_node c | None \<Rightarrow> Some rt) else cur"
  from Suc.prems(1) have lt: "i div 8 < length ?ks" by auto
  have "\<exists>c'. ?cur' = Some c' \<and> chain c' = drop (i div 8) ?ks"
  proof (cases "i = 0")
    case True
    with Suc.prems(2) show ?thesis by simp
  next
    case False
    with Suc.prems(3) obtain c where c: "cur = Some c" "chain c = drop ((i - 1) div 8) ?ks"
      by auto
    show ?thesis
    proof (cases "i mod 8 = 0")
      case True
      from True False obtain q where q: "i = 8 * q" "q > 0" by (auto simp: mod_eq_0_iff_dvd)
      have d: "(i - 1) div 8 + 1 = i div 8"
        using q by (cases q) (simp_all add: div_mult_self4 [where b = 8])
      have "tl (chain c) = drop ((i - 1) div 8 + 1) ?ks"
        by (simp add: c(2) drop_Suc tl_drop)
      then have "tl (chain c) = drop (i div 8) ?ks" by (simp only: d)
      moreover from lt have "drop (i div 8) ?ks \<noteq> []" by simp
      ultimately show ?thesis using chain_next [of c] c(1) True by auto
    next
      case nz: False
      have "i = 8 * (i div 8) + i mod 8" by simp
      with nz have "i - 1 = 8 * (i div 8) + (i mod 8 - 1)" "i mod 8 - 1 < 8" by arith+
      then have "(i - 1) div 8 = i div 8"
        by (metis add.commute div_mult_self2 div_less add.left_neutral zero_neq_numeral)
      with c nz show ?thesis by simp
    qed
  qed
  then obtain c' where c': "?cur' = Some c'" "chain c' = drop (i div 8) ?ks" by blast
  have k: "key c' = ?ks ! (i div 8)"
    using c'(2) lt by (simp add: hd_drop_conv_nth flip: chain_hd)
  have ih: "path_loop rt (Some c') (i + 1) n =
      Some (map (\<lambda>j. c_key_get (?ks ! (j div 8)) (7 - j mod 8)) [i + 1..<i + 1 + n])"
    using Suc.prems(1) c'(2) by (intro Suc.IH) auto
  have m: "8 - i mod 8 - 1 = 7 - i mod 8" by simp
  have u: "[i..<i + Suc n] = i # [i + 1..<i + 1 + n]" by (simp add: upt_conv_Cons)
  have "path_loop rt cur i (Suc n) =
      (case ?cur' of None \<Rightarrow> None
       | Some c \<Rightarrow> (case path_loop rt ?cur' (i + 1) n of None \<Rightarrow> None
           | Some rest \<Rightarrow> Some (c_key_get (key c) (8 - i mod 8 - 1) # rest)))"
    by (simp only: path_loop.simps Let_def)
  also have "\<dots> = Some (c_key_get (?ks ! (i div 8)) (7 - i mod 8)
       # map (\<lambda>j. c_key_get (?ks ! (j div 8)) (7 - j mod 8)) [i + 1..<i + 1 + n])"
    by (simp only: c' ih k m option.case)
  finally show ?case by (simp only: u list.map)
qed

lemma path_elems_inv:
  assumes "orbit_inv ob xs"
  shows "path_elems ob = Some xs"
proof -
  from assms have l: "path_length ob = length xs"
    and n: "length (chain (root ob)) = max 1 ((length xs + 7) div 8)"
    and s: "\<forall>i < length xs. c_key_get (chain (root ob) ! (i div 8)) (7 - i mod 8) = xs ! i"
    by (simp_all add: orbit_inv_def)
  from n have "0 + length xs \<le> 8 * length (chain (root ob))" by (simp add: max_def split: if_splits) 
  then have "path_loop (root ob) None 0 (length xs) =
      Some (map (\<lambda>j. c_key_get (chain (root ob) ! (j div 8)) (7 - j mod 8)) [0..<0 + length xs])"
    by (intro path_loop_chain) auto
  moreover have "map (\<lambda>j. c_key_get (chain (root ob) ! (j div 8)) (7 - j mod 8)) [0..<length xs] = xs"
    using s by (intro nth_equalityI) auto
  ultimately show ?thesis by (simp add: path_elems_def l)
qed


lemma blocks_full: "n mod 8 = 0 \<Longrightarrow> 0 < n \<Longrightarrow> max 1 ((n + 7) div 8) = n div (8::nat)"
  by (auto simp: max_def mod_eq_0_iff_dvd)

lemma blocks_next: "max 1 ((n + 1 + 7) div 8) = n div (8::nat) + 1"
  by simp

lemma blocks_part: "\<not> (n mod 8 = 0 \<and> 0 < n) \<Longrightarrow> max 1 ((n + 7) div 8) = n div (8::nat) + 1"
proof (cases "n = 0")
  case True
  then show ?thesis by simp
next
  case False
  assume "\<not> (n mod 8 = 0 \<and> 0 < n)"
  with False have r: "0 < n mod 8" by simp
  have "n + 7 = 8 * (n div 8 + 1) + (n mod 8 - 1)" using r by (simp add: algebra_simps) 
  moreover have "n mod 8 - 1 < 8" by (simp add: less_imp_diff_less)
  ultimately have "(n + 7) div 8 = n div 8 + 1"
    by (metis div_mult_self4 div_less add.right_neutral zero_neq_numeral)
  then show ?thesis by simp
qed

lemma same_block_less: "i < n \<Longrightarrow> i div 8 = n div (8::nat) \<Longrightarrow> i mod 8 < n mod 8"
  by (metis add_less_cancel_left mult_div_mod_eq)

lemma earlier_block: "i < n \<Longrightarrow> n mod 8 = 0 \<Longrightarrow> i div 8 < n div (8::nat)"
  by (auto simp: mod_eq_0_iff_dvd less_mult_imp_div_less mult.commute)


lemma snoc_butlast_update: "ks \<noteq> [] \<Longrightarrow> butlast ks @ [y] = ks[length ks - 1 := y]"
  by (induction ks rule: rev_induct) (auto simp: list_update_append)

lemma orbit_append_inv:
  assumes "orbit_inv ob xs"
  shows "orbit_inv (orbit_append ob c) (xs @ [word_of_int c])"
proof -
  let ?ks = "chain (root ob)"
  let ?v = "word_of_int c :: 8 word"
  let ?len = "length xs"
  let ?pos = "?len mod 8"
  from assms have l: "path_length ob = ?len"
    and n: "length ?ks = max 1 ((?len + 7) div 8)"
    and s: "\<And>i. i < ?len \<Longrightarrow> c_key_get (?ks ! (i div 8)) (7 - i mod 8) = xs ! i"
    by (simp_all add: orbit_inv_def)
  have ne: "?ks \<noteq> []" by (rule chain_not_Nil)
  show ?thesis
  proof (cases "?pos = 0 \<and> 0 < ?len")
    case True
    then have "max 1 ((?len + 7) div 8) = ?len div 8" by (intro blocks_full) simp_all
    with n have n': "length ?ks = ?len div 8" by (simp only:)
    have ch: "chain (root (orbit_append ob c)) = ?ks @ [c_key_set 0 7 ?v]"
      using True by (simp add: orbit_append_def l Let_def chain_upd_curr chain_link_node)
    have a: "length (?ks @ [c_key_set 0 7 ?v]) = max 1 ((length (xs @ [?v]) + 7) div 8)"
      using n' by (simp add: blocks_next del: max_nat.neutr_eq_iff)
    have b: "c_key_get ((?ks @ [c_key_set 0 7 ?v]) ! (i div 8)) (7 - i mod 8) = (xs @ [?v]) ! i"
      if "i < length (xs @ [?v])" for i
    proof (cases "i < ?len")
      case lt: True
      then have "i div 8 < length ?ks" using n' True by (simp add: earlier_block)
      with lt show ?thesis by (simp add: nth_append s)
    next
      case False
      with that have i: "i = ?len" by simp
      then show ?thesis using True n' by (simp add: nth_append c_key_get_set)
    qed
    show ?thesis
      unfolding orbit_inv_def ch using a b by (simp add: orbit_append_def l Let_def)
  next
    case False
    then have "max 1 ((?len + 7) div 8) = ?len div 8 + 1" by (rule blocks_part)
    with n have n': "length ?ks = ?len div 8 + 1" by (simp only:)
    let ?y = "c_key_set (last ?ks) (7 - ?pos) ?v"
    have ch: "chain (root (orbit_append ob c)) = ?ks[?len div 8 := ?y]"
    proof -
      have m: "8 - ?pos - 1 = 7 - ?pos" by simp
      from False have "\<not> (?pos = 0 \<and> ?pos < ?len)" by auto
      then have "root (orbit_append ob c)
          = upd_curr (\<lambda>k. c_key_set k (7 - ?pos) ?v) (root ob)"
        by (auto simp add: orbit_append_def l Let_def m)
      then show ?thesis
        using ne n' by (simp add: chain_upd_curr snoc_butlast_update)
    qed
    have la: "last ?ks = ?ks ! (?len div 8)" using ne n' by (simp add: last_conv_nth)
    have a: "length (?ks[?len div 8 := ?y]) = max 1 ((length (xs @ [?v]) + 7) div 8)"
      using n' by (simp add: blocks_next)
    have b: "c_key_get ((?ks[?len div 8 := ?y]) ! (i div 8)) (7 - i mod 8) = (xs @ [?v]) ! i"
      if "i < length (xs @ [?v])" for i
    proof (cases "i < ?len")
      case lt: True
      show ?thesis
      proof (cases "i div 8 = ?len div 8")
        case eq: True
        with lt have "i mod 8 < ?pos" by (rule same_block_less)
        moreover have "?pos < 8" by simp
        ultimately have "7 - ?pos \<noteq> 7 - i mod 8" "7 - ?pos < 8" "7 - i mod 8 < 8" by linarith+
        then have "c_key_get ?y (7 - i mod 8) = c_key_get (last ?ks) (7 - i mod 8)"
          by (simp add: c_key_get_set)
        with eq lt n' show ?thesis by (simp add: nth_append la s [OF lt, unfolded eq])
      next
        case neq: False
        with lt show ?thesis by (simp add: nth_append s)
      qed
    next
      case ge: False
      with that have i: "i = ?len" by simp
      have "7 - ?pos < 8" by simp
      then show ?thesis using n' by (simp add: i nth_append c_key_get_set)
    qed
    show ?thesis
      unfolding orbit_inv_def ch using a b by (simp add: orbit_append_def l Let_def)
  qed
qed

lemma orbit_init_inv: "orbit_inv orbit_init []"
  by (simp add: orbit_inv_def orbit_init_def)

lemma orbit_of_inv: "orbit_inv (orbit_of cs) (map word_of_int cs)"
proof (induction cs rule: rev_induct)
  case Nil
  show ?case by (simp add: orbit_of_def orbit_init_inv)
next
  case (snoc c cs)
  then show ?case using orbit_append_inv [of "orbit_of cs" "map word_of_int cs" c]
    by (simp add: orbit_of_def)
qed

lemma uint_byte: "uint (word_of_int c :: 8 word) = c mod 256"
  by (simp add: uint_word_of_int)

lemma append_256_reads_0:
  "path_elems (orbit_of [256]) = Some [0] \<and> orbit_eq (orbit_of [256]) (orbit_of [0])"
  by code_simp

text \<open>
  Claim C10.  \<open>append\<close> stores each count in an 8-bit cell: the orbit built by
  appending the counts \<open>cs\<close> reads back, position by position, as the counts reduced
  modulo 256.
\<close>

theorem append_stores_mod_256:
  "map_option (map uint) (path_elems (orbit_of cs)) = Some (map (\<lambda>c. c mod 256) cs)"
  using path_elems_inv [OF orbit_of_inv, of cs] by (simp add: uint_byte comp_def)

section \<open>Overflow in the loop of \<open>setpath\<close>\<close>

lemma sgn_tdiv_even: "trem b divisor = 0 \<Longrightarrow> sgn (tdiv b divisor) = sgn b"
proof -
  assume "trem b divisor = 0"
  then have "even b" by (simp add: trem_even)
  then obtain k where "b = 2 * k" by (auto elim: evenE)
  then show ?thesis by (auto simp: tdiv_def divisor_def sgn_if abs_if)
qed

lemma factor_loop_sgn:
  assumes "factor_loop d b s f = Some y"
  shows "sgn (snd y) = sgn b"
proof (rule factor_loop.raw_induct [where P = "\<lambda>d b s f y. sgn (snd y) = sgn b", OF _ assms],
    goal_cases)
  case (1 g d branch start facts da)
  show ?case
  proof (cases "trem branch divisor = 0")
    case True
    note ev = this
    show ?thesis
    proof (cases "p_abs d (tdiv branch divisor) < p_abs d start")
      case True
      with ev 1(2) show ?thesis by (auto simp: sgn_tdiv_even)
    next
      case False
      with ev 1(2) have "g d (tdiv branch divisor) start (facts + 1) = Some da" by simp
      from 1(1) [OF this] ev show ?thesis by (simp add: sgn_tdiv_even)
    qed
  next
    case False
    with 1(2) show ?thesis by auto
  qed
qed

lemma body_continue_sign:
  assumes "setpath_body d speed mf start p c = Some (Continue p' c')"
  shows "int_sign p' = int_sign p \<and> sgn c' = int_sign p"
proof -
  from assms have s: "int_sign p = sgn (connection d c)"
    by (auto simp: setpath_body_def Let_def split: if_splits)
  from assms s obtain leg where f: "factor d (connection d c) start = Some (leg, c')"
    and p': "int_sign p' = int_sign p"
    by (auto simp: setpath_body_def Let_def split: if_splits option.splits prod.splits)
  from factor_loop_sgn [OF f [unfolded factor_def]] s p' show ?thesis by simp
qed

lemma loop_state_sign:
  assumes "loop_state d speed mf start p c"
  shows "int_sign p = sgn c \<and> sgn c = sgn start \<and> trem start divisor \<noteq> 0"
  using assms
proof (induction rule: loop_state.induct)
  case entry
  then show ?case by (simp add: loop_entry_def path_init_def zeroize_def)
next
  case (round p c p' c')
  with body_continue_sign [OF round.hyps(2)] show ?case by simp
qed

lemma loop_state_result:
  assumes "loop_state d speed mf start p c"
  shows "setpath_loop d speed mf start p c = setpath_loop d speed mf start (loop_entry start) start"
  using assms
proof (induction rule: loop_state.induct)
  case entry
  show ?case by simp
next
  case (round p c p' c')
  have "setpath_loop d speed mf start p c = setpath_loop d speed mf start p' c'"
    using round.hyps(2,3) by (subst setpath_loop.simps) simp
  with round.IH show ?case by simp
qed

lemma setpath_odd:
  assumes "trem start divisor \<noteq> 0"
  shows "setpath d speed mf start =
     (case setpath_loop d speed mf start (loop_entry start) start of
        None \<Rightarrow> None
      | Some r \<Rightarrow>
          (case r of
             Continue p' c' \<Rightarrow> setpath_tail d start p' c'
           | Broke p' c' \<Rightarrow> setpath_tail d start p' c'
           | Returned p' \<Rightarrow> Some p'))"
  using assms by (simp add: setpath_def loop_entry_def Let_def)

lemma overflow_at_second_round:
  "map_option (\<lambda>q. (summary q, max_int q, error_mask q)) (setpath Int64 False 0 2305843009213693955)
     = Some ((Some [0, 1], 2, 1), 6917529027641081866, 1)"
  by code_simp

text \<open>
  Claim C5.  At the head of any round of the loop of \<open>setpath\<close>, if the sign of the
  connection of the current value differs from the sign of the current value, then the
  round sets the overflow bit and leaves by \<open>break\<close> with the current value unchanged
  (the last valid value), the loop ends there, and \<open>setpath\<close> returns: the object it
  leaves carries the overflow bit and the orbit, path-factor total and maximum
  reached before that round.
\<close>

theorem overflow_stops_loop:
  assumes "loop_state d speed max_factors start p current_int"
      and "sgn (connection d current_int) \<noteq> sgn current_int"
  shows "setpath_body d speed max_factors start p current_int
           = Some (Broke (p\<lparr>error_mask := error_mask p OR overflow\<rparr>) current_int)
       \<and> setpath_loop d speed max_factors start p current_int
           = Some (Broke (p\<lparr>error_mask := error_mask p OR overflow\<rparr>) current_int)
       \<and> (\<exists>q. setpath d speed max_factors start = Some q
              \<and> error_mask q = error_mask p OR overflow \<and> bit (error_mask q) 0
              \<and> orb q = orb p \<and> path_factors q = path_factors p \<and> max_int q = max_int p
              \<and> start_int q = start_int p \<and> int_sign q = int_sign p)"
proof -
  let ?p = "p\<lparr>error_mask := error_mask p OR overflow\<rparr>"
  note inv = loop_state_sign [OF assms(1)]
  from inv assms(2) have b: "setpath_body d speed max_factors start p current_int
      = Some (Broke ?p current_int)"
    by (simp add: setpath_body_def Let_def)
  then have l: "setpath_loop d speed max_factors start p current_int = Some (Broke ?p current_int)"
    by (subst setpath_loop.simps) simp
  from inv have odd: "trem start divisor \<noteq> 0" by simp
  then have "start \<noteq> 0" by (auto simp: trem_def)
  then obtain q where q: "setpath_tail d start ?p current_int = Some q" "orb q = orb ?p"
      "path_factors q = path_factors ?p" "error_mask q = error_mask ?p"
      "max_int q = max_int ?p" "start_int q = start_int ?p" "int_sign q = int_sign ?p"
    using setpath_tail_total [of current_int start d ?p] by auto
  have "setpath d speed max_factors start = Some q"
    using l q(1) loop_state_result [OF assms(1)] by (simp add: setpath_odd [OF odd])
  moreover have "bit (error_mask p OR overflow) 0" by (simp add: overflow_def bit_or_iff)
  ultimately show ?thesis using b l q by simp
qed

text \<open>An \<open>int64_t\<close> start whose first connection, \<open>2 ^ 64\<close>, wraps to zero.\<close>

theorem overflow_at_first_round:
  "loop_state Int64 False 0 6148914691236517205 (loop_entry 6148914691236517205) 6148914691236517205
   \<and> sgn (connection Int64 6148914691236517205) \<noteq> sgn (6148914691236517205 :: int)
   \<and> (\<exists>q. setpath Int64 False 0 6148914691236517205 = Some q \<and> bit (error_mask q) 0
          \<and> orb q = orb (loop_entry 6148914691236517205))"
proof -
  have "trem 6148914691236517205 divisor \<noteq> 0" by (simp add: trem_def divisor_def)
  then have h1: "loop_state Int64 False 0 6148914691236517205
      (loop_entry 6148914691236517205) 6148914691236517205"
    by (rule loop_state.entry)
  have h2: "sgn (connection Int64 6148914691236517205) \<noteq> sgn (6148914691236517205 :: int)"
    by (simp add: connection_def p_add_def p_mul_def wrap_def multiplier_def addend_def)
  from overflow_stops_loop [OF h1 h2] h1 h2 show ?thesis by blast
qed

section \<open>The path of 5\<close>

lemma conn_5: "connection d 5 = 16"
  by (cases d) (simp_all add: connection_def p_add_def p_mul_def wrap_def multiplier_def addend_def)

lemma factor_16_5_int64: "factor Int64 16 5 = Some (2, 4)"
  by code_simp

lemma factor_16_5_mpz: "factor Mpz 16 5 = Some (2, 4)"
  by code_simp

lemma factor_16_5: "factor d 16 5 = Some (2, 4)"
  using factor_16_5_int64 factor_16_5_mpz by (cases d) simp_all

lemma p_abs_4_5: "\<not> p_abs d 4 > p_abs d 5"
  by (cases d) (simp_all add: p_abs_def wrap_def)

lemma body_5:
  assumes "speed \<longrightarrow> 2 \<le> max_factors"
  shows "setpath_body d speed max_factors 5 (loop_entry 5) 5 =
     Some (Continue ((loop_entry 5)\<lparr>max_int := 16, path_factors := 2,
                        orb := orbit_append (orb (loop_entry 5)) 2\<rparr>) 4)"
  using assms
  by (auto simp: setpath_body_def conn_5 factor_16_5 Let_def loop_entry_def path_init_def zeroize_def)

lemma tail_5_int64:
  "map_option summary (setpath_tail Int64 5 ((loop_entry 5)\<lparr>max_int := 16, path_factors := 2,
                        orb := orbit_append (orb (loop_entry 5)) 2\<rparr>) 4) = Some (Some [0, 2], 2, 2)"
  by code_simp

lemma tail_5_mpz:
  "map_option summary (setpath_tail Mpz 5 ((loop_entry 5)\<lparr>max_int := 16, path_factors := 2,
                        orb := orbit_append (orb (loop_entry 5)) 2\<rparr>) 4) = Some (Some [0, 2], 2, 2)"
  by code_simp

text \<open>
  Claim C1, as the code has it.  For the starting integer 5, with speed mode off or
  with a factor budget of at least 2, \<open>connection\<close> gives 16; \<open>factor\<close> takes 2 factors
  of two out of it (16, 8, 4) and stops at 4, the first value below 5; \<open>setpath\<close>
  leaves the orbit \<open>[0, 2]\<close>, path length 2 and path-factor total 2.
\<close>

theorem setpath_5:
  assumes "speed \<longrightarrow> 2 \<le> max_factors"
  shows "connection d 5 = 16 \<and> factor d 16 5 = Some (2, 4)
    \<and> map_option summary (setpath d speed max_factors 5) = Some (Some [0, 2], 2, 2)"
proof -
  let ?p = "(loop_entry 5)\<lparr>max_int := 16, path_factors := 2,
                        orb := orbit_append (orb (loop_entry 5)) 2\<rparr>"
  have l: "setpath_loop d speed max_factors 5 (loop_entry 5) 5 = Some (Continue ?p 4)"
    by (subst setpath_loop.simps) (simp add: body_5 [OF assms] p_abs_4_5)
  have "trem 5 divisor \<noteq> 0" by (simp add: trem_def divisor_def)
  then have "setpath d speed max_factors 5 = setpath_tail d 5 ?p 4"
    by (simp add: setpath_odd l)
  moreover have "map_option summary (setpath_tail d 5 ?p 4) = Some (Some [0, 2], 2, 2)"
    using tail_5_int64 tail_5_mpz by (cases d) simp_all
  ultimately show ?thesis by (simp add: conn_5 factor_16_5)
qed

theorem setpath_5_in_speed_mode:
  "connection Int64 5 = 16 \<and> factor Int64 16 5 = Some (2, 4)
    \<and> map_option summary (setpath Int64 True 2 5) = Some (Some [0, 2], 2, 2)"
  using setpath_5 [of True 2 Int64] by simp

text \<open>
  Claim C1 as stated (a leg of 4 factors down to 1, orbit \<open>[0, 4]\<close>, path-factor
  total 4) does not hold of the code.
\<close>

theorem setpath_5_leg_not_4:
  "\<not> (connection Int64 5 = 16 \<and> factor Int64 16 5 = Some (4, 1)
      \<and> map_option summary (setpath Int64 False 0 5) = Some (Some [0, 4], 2, 4))"
  by code_simp

section \<open>\<open>parse\<close> against its specification\<close>

declare parse_loop.simps [simp del]

lemma char_at_drop:
  assumes "drop pos input = c # cs"
  shows "char_at input pos = c \<and> drop (Suc pos) input = cs"
proof -
  from assms have "pos < length input" by (cases "pos < length input") auto
  moreover from assms have "input ! pos = c" by (rule nth_via_drop)
  moreover have "drop (Suc pos) input = drop 1 (drop pos input)" by simp
  ultimately show ?thesis using assms by (simp add: char_at_def)
qed

lemma parse_loop_end:
  "parse_loop d input 1 pos local mult rollover sign = p_mul d local sign"
  by (subst parse_loop.simps) simp

lemma parse_loop_step:
  assumes "drop pos input = c # cs" "strlen = int (length (c # cs)) + 1"
  shows "parse_loop d input strlen pos local mult rollover sign =
     (if c = CHR ''1'' then
        (if rollover \<or> p_abs d (p_mul d mult 2) < mult then 0
         else parse_loop d input (strlen - 1) (Suc pos) (p_add d local mult)
                (p_mul d mult 2) (rollover \<or> p_abs d (p_mul d mult 2) < mult) sign)
      else if c \<noteq> CHR ''0'' then 0
      else parse_loop d input (strlen - 1) (Suc pos) local (p_mul d mult 2)
             (rollover \<or> p_abs d (p_mul d mult 2) < mult) sign)"
proof -
  from char_at_drop [OF assms(1)] have c: "char_at input pos = c" by simp
  have g: "strlen - 1 > 0" using assms(2) by simp
  have p: "pos + 1 = Suc pos" by simp
  show ?thesis
    by (subst parse_loop.simps) (simp only: c g p if_True)
qed

lemma overflow_at_one_mpz: "overflow_at_one Mpz m cs = False"
  by (induction cs arbitrary: m) (auto simp: in_dom_def)

lemma parse_loop_mpz:
  assumes "drop pos input = rest" "0 < mult" "strlen = int (length rest) + 1"
  shows "parse_loop Mpz input strlen pos local mult False sign =
     (if list_all binary_symbol rest then (local + weighted_sum mult rest) * sign else 0)"
  using assms
proof (induction rest arbitrary: pos local mult strlen)
  case Nil
  then show ?case by (simp add: parse_loop_end p_mul_def wrap_def)
next
  case (Cons c cs)
  from char_at_drop [OF Cons.prems(1)] have d: "drop (Suc pos) input = cs" by simp
  have m: "p_mul Mpz mult 2 = 2 * mult" "0 < 2 * mult"
    using Cons.prems(2) by (simp_all add: p_mul_def wrap_def)
  have r: "(False \<or> p_abs Mpz (p_mul Mpz mult 2) < mult) = False"
    using Cons.prems(2) by (simp add: p_mul_def p_abs_def wrap_def)
  have l: "strlen - 1 = int (length cs) + 1" using Cons.prems(3) by simp
  have ih: "parse_loop Mpz input (strlen - 1) (Suc pos) l (p_mul Mpz mult 2) False sign =
      (if list_all binary_symbol cs then (l + weighted_sum (2 * mult) cs) * sign else 0)" for l
    unfolding m(1) by (rule Cons.IH [OF d m(2) l])
  have bs: "binary_symbol c \<longleftrightarrow> c = CHR ''0'' \<or> c = CHR ''1''"
    by (simp add: binary_symbol_def)
  show ?case
    unfolding parse_loop_step [OF Cons.prems(1,3)] r ih
    by (simp add: bs p_add_def wrap_def algebra_simps)
qed


lemma parse_loop_rolled:
  assumes "drop pos input = rest" "strlen = int (length rest) + 1" "in_dom Int64 (local * sign)"
  shows "parse_loop Int64 input strlen pos local mult True sign =
     (if set rest \<subseteq> {CHR ''0''} then local * sign else 0)"
  using assms(1,2)
proof (induction rest arbitrary: pos mult strlen)
  case Nil
  then show ?case using assms(3) by (simp add: parse_loop_end p_mul_def wrap_in_dom)
next
  case (Cons c cs)
  from char_at_drop [OF Cons.prems(1)] have d: "drop (Suc pos) input = cs" by simp
  have r: "(True \<or> p_abs Int64 (p_mul Int64 mult 2) < mult) = True" by simp
  have l: "strlen - 1 = int (length cs) + 1" using Cons.prems(2) by simp
  note ih = Cons.IH [OF d l]
  show ?case
    unfolding parse_loop_step [OF Cons.prems(1,2)] r ih
    by simp
qed

lemma spec_rolled:
  assumes "2 ^ 62 \<le> m"
  shows "(list_all binary_symbol cs \<and> \<not> overflow_at_one Int64 m cs) = (set cs \<subseteq> {CHR ''0''})
       \<and> (set cs \<subseteq> {CHR ''0''} \<longrightarrow> weighted_sum m cs = 0)"
  using assms
proof (induction cs arbitrary: m)
  case Nil
  show ?case by simp
next
  case (Cons c cs)
  from Cons.prems have n: "\<not> in_dom Int64 (2 * m)" "2 ^ 62 \<le> 2 * m"
    by (simp_all add: in_dom_def)
  have bs: "binary_symbol c \<longleftrightarrow> c = CHR ''0'' \<or> c = CHR ''1''"
    by (simp add: binary_symbol_def)
  from Cons.IH [OF n(2)] n(1) show ?case by (auto simp: bs)
qed

lemma in_dom_small: "0 \<le> x \<Longrightarrow> x < 2 ^ 63 \<Longrightarrow> in_dom Int64 x"
  by (simp add: in_dom_def)

lemma parse_loop_int64:
  assumes "drop pos input = rest" "strlen = int (length rest) + 1" "i \<le> 60"
      "0 \<le> local" "local < 6 * 2 ^ i" "sign = 1 \<or> sign = - 1"
  shows "parse_loop Int64 input strlen pos local (6 * 2 ^ i) False sign =
     (if list_all binary_symbol rest \<and> \<not> overflow_at_one Int64 (6 * 2 ^ i) rest
      then (local + weighted_sum (6 * 2 ^ i) rest) * sign else 0)"
  using assms(1-5)
proof (induction rest arbitrary: pos strlen i local)
  case Nil
  from Nil.prems(3) have "(2::int) ^ i \<le> 2 ^ 60" by (intro power_increasing) simp_all
  with Nil.prems(4,5) assms(6) have "in_dom Int64 (local * sign)"
    by (auto simp: in_dom_def)
  with Nil.prems(2) show ?case by (simp add: parse_loop_end p_mul_def wrap_in_dom)
next
  case (Cons c cs)
  from char_at_drop [OF Cons.prems(1)] have d: "drop (Suc pos) input = cs" by simp
  have l: "strlen - 1 = int (length cs) + 1" using Cons.prems(2) by simp
  have bs: "binary_symbol c \<longleftrightarrow> c = CHR ''0'' \<or> c = CHR ''1''"
    by (simp add: binary_symbol_def)
  have pos2: "0 < (2::int) ^ i" by simp
  show ?case
  proof (cases "i < 60")
    case True
    then have le: "(2::int) ^ i \<le> 2 ^ 59" by (intro power_increasing) simp_all
    have dm: "in_dom Int64 (2 * (6 * 2 ^ i))" by (rule in_dom_small) (use le in simp_all)
    then have m: "p_mul Int64 (6 * 2 ^ i) 2 = 6 * 2 ^ Suc i"
      by (simp add: p_mul_def wrap_in_dom mult.commute)
    have r: "(False \<or> p_abs Int64 (6 * 2 ^ Suc i) < 6 * 2 ^ i) = False"
      using dm by (simp add: p_abs_def wrap_in_dom mult.commute)
    have "in_dom Int64 (local + 6 * 2 ^ i)"
      by (rule in_dom_small) (use Cons.prems(4,5) le in simp_all)
    then have a: "p_add Int64 local (6 * 2 ^ i) = local + 6 * 2 ^ i"
      by (simp add: p_add_def wrap_in_dom)
    from True have si: "Suc i \<le> 60" by simp
    have ih0: "parse_loop Int64 input (strlen - 1) (Suc pos) local (6 * 2 ^ Suc i) False sign =
      (if list_all binary_symbol cs \<and> \<not> overflow_at_one Int64 (6 * 2 ^ Suc i) cs
       then (local + weighted_sum (6 * 2 ^ Suc i) cs) * sign else 0)"
      using Cons.prems(4,5) by (intro Cons.IH [OF d l si]) simp_all
    have ih1: "parse_loop Int64 input (strlen - 1) (Suc pos) (local + 6 * 2 ^ i) (6 * 2 ^ Suc i) False sign =
      (if list_all binary_symbol cs \<and> \<not> overflow_at_one Int64 (6 * 2 ^ Suc i) cs
       then (local + 6 * 2 ^ i + weighted_sum (6 * 2 ^ Suc i) cs) * sign else 0)"
      using Cons.prems(4,5) by (intro Cons.IH [OF d l si]) simp_all
    have e: "2 * (6 * (2::int) ^ i) = 6 * 2 ^ Suc i" by simp
    show ?thesis
      unfolding parse_loop_step [OF Cons.prems(1,2)] r m a ih0 ih1
      using dm by (simp only: list.pred_inject overflow_at_one.simps weighted_sum.simps bs e)
        (auto simp: algebra_simps)
  next
    case False
    with Cons.prems(3) have i: "i = 60" by simp
    have r: "(False \<or> p_abs Int64 (p_mul Int64 (6 * 2 ^ i) 2) < 6 * 2 ^ i) = True"
      unfolding i by (simp add: p_abs_def p_mul_def wrap_def)
    have nd: "\<not> in_dom Int64 (2 * (6 * 2 ^ i))" unfolding i by (simp add: in_dom_def)
    have big: "(2::int) ^ 62 \<le> 2 * (6 * 2 ^ i)" unfolding i by simp
    from Cons.prems(4,5) assms(6) have dl: "in_dom Int64 (local * sign)"
      unfolding i by (auto simp: in_dom_def)
    note ro = parse_loop_rolled [OF d l dl]
    note sp = spec_rolled [OF big, of cs]
    show ?thesis
      unfolding parse_loop_step [OF Cons.prems(1,2)] r ro
      using nd sp by (simp only: list.pred_inject overflow_at_one.simps weighted_sum.simps bs)
        (auto simp: algebra_simps)
  qed
qed

lemma parse_examples:
  "parse Int64 ''+3011101'' = 279" "parse Mpz ''-50111'' = - 89"
  "parse Int64 ''7'' = 0" "parse Int64 ''312'' = 0" "parse Int64 ''+'' = 0"
  "parse Int64 (CHR ''1'' # replicate 59 CHR ''0'' @ ''1'') = 3458764513820540929"
  "parse Int64 (CHR ''1'' # replicate 60 CHR ''0'' @ ''1'') = 0"
  "parse Mpz (CHR ''1'' # replicate 60 CHR ''0'' @ ''1'') = 6917529027641081857"
  by code_simp+

text \<open>
  Claim C6.  \<open>parse\<close> computes what the specification says: an optional leading
  \<open>'+'\<close> or \<open>'-'\<close> is taken as the sign; the result is 0 when there is no first symbol
  or it is outside \<open>'0'..'5'\<close>, when a later symbol is neither \<open>'0'\<close> nor \<open>'1'\<close>, and
  when at some \<open>'1'\<close> the double of the multiplier of its position overflows the domain;
  otherwise it is the sign times the first digit plus the weighted sum of the later
  symbols, with the multiplier 6 doubling per position.
\<close>

theorem parse_meets_spec: "parse d input = parse_spec d input"
proof -
  consider (empty) "input = []"
    | (plain) c cs where "input = c # cs" "c \<noteq> CHR ''+''" "c \<noteq> CHR ''-''"
    | (sign_only) c where "input = [c]" "c = CHR ''+'' \<or> c = CHR ''-''"
    | (signed) c b bs where "input = c # b # bs" "c = CHR ''+'' \<or> c = CHR ''-''"
    by (cases input; cases "tl input") auto
  then show ?thesis
  proof cases
    case empty
    then show ?thesis
      by (simp add: parse_def parse_spec_def is_signed_def char_at_def)
  next
    case sign_only
    then show ?thesis
      by (auto simp: parse_def parse_spec_def is_signed_def char_at_def)
  next
    case plain
    have mm: "multiplier * divisor = 6 * 2 ^ 0" by (simp add: multiplier_def divisor_def)
    show ?thesis
    proof (cases "first_symbol_ok c")
      case False
      with plain show ?thesis
        by (auto simp: parse_def parse_spec_def is_signed_def char_at_def first_symbol_ok_def Let_def)
    next
      case True
      let ?l = "int (of_char c) - int (of_char CHR ''0'')"
      from True have lo: "0 \<le> ?l" "?l < 6 * 2 ^ 0" by (auto simp: first_symbol_ok_def)
      have dr: "drop 1 input = cs" using plain by simp
      have sl: "int (length input) = int (length cs) + 1" using plain by simp
      have p: "parse d input = parse_loop d input (int (length input)) 1 ?l (6 * 2 ^ 0) False 1"
        using plain True
        by (auto simp: parse_def is_signed_def char_at_def first_symbol_ok_def Let_def mm)
      have q: "parse_spec d input =
          (if list_all binary_symbol cs \<and> \<not> overflow_at_one d (6 * 2 ^ 0) cs
           then (?l + weighted_sum (6 * 2 ^ 0) cs) * 1 else 0)"
        using plain True by (auto simp: parse_spec_def Let_def mm)
      show ?thesis
      proof (cases d)
        case Int64
        have "parse_loop Int64 input (int (length input)) 1 ?l (6 * 2 ^ 0) False 1 =
          (if list_all binary_symbol cs \<and> \<not> overflow_at_one Int64 (6 * 2 ^ 0) cs
           then (?l + weighted_sum (6 * 2 ^ 0) cs) * 1 else 0)"
          by (rule parse_loop_int64 [OF dr sl _ lo]) simp_all
        with p q Int64 show ?thesis by (simp only:)
      next
        case Mpz
        have "parse_loop Mpz input (int (length input)) 1 ?l (6 * 2 ^ 0) False 1 =
          (if list_all binary_symbol cs \<and> \<not> overflow_at_one Mpz (6 * 2 ^ 0) cs
           then (?l + weighted_sum (6 * 2 ^ 0) cs) * 1 else 0)"
          unfolding overflow_at_one_mpz using parse_loop_mpz [OF dr _ sl, of "6 * 2 ^ 0" ?l 1]
          by simp
        with p q Mpz show ?thesis by (simp only:)
      qed
    qed
  next
    case signed
    have mm: "multiplier * divisor = 6 * 2 ^ 0" by (simp add: multiplier_def divisor_def)
    let ?s = "if c = CHR ''-'' then - 1 else 1 :: int"
    show ?thesis
    proof (cases "first_symbol_ok b")
      case False
      with signed show ?thesis
        by (auto simp: parse_def parse_spec_def is_signed_def char_at_def first_symbol_ok_def Let_def)
    next
      case True
      let ?l = "int (of_char b) - int (of_char CHR ''0'')"
      from True have lo: "0 \<le> ?l" "?l < 6 * 2 ^ 0" by (auto simp: first_symbol_ok_def)
      have dr: "drop 2 input = bs" using signed by simp
      have sl: "int (length input) - 1 = int (length bs) + 1" using signed by simp
      have sg: "?s = 1 \<or> ?s = - 1" by simp
      have p: "parse d input = parse_loop d input (int (length input) - 1) 2 ?l (6 * 2 ^ 0) False ?s"
        using signed True
        by (auto simp: parse_def is_signed_def char_at_def first_symbol_ok_def Let_def mm)
      have q: "parse_spec d input =
          (if list_all binary_symbol bs \<and> \<not> overflow_at_one d (6 * 2 ^ 0) bs
           then (?l + weighted_sum (6 * 2 ^ 0) bs) * ?s else 0)"
        using signed True by (auto simp: parse_spec_def Let_def mm)
      show ?thesis
      proof (cases d)
        case Int64
        have "parse_loop Int64 input (int (length input) - 1) 2 ?l (6 * 2 ^ 0) False ?s =
          (if list_all binary_symbol bs \<and> \<not> overflow_at_one Int64 (6 * 2 ^ 0) bs
           then (?l + weighted_sum (6 * 2 ^ 0) bs) * ?s else 0)"
          by (rule parse_loop_int64 [OF dr sl _ lo sg]) simp
        with p q Int64 show ?thesis by (simp only:)
      next
        case Mpz
        have "parse_loop Mpz input (int (length input) - 1) 2 ?l (6 * 2 ^ 0) False ?s =
          (if list_all binary_symbol bs \<and> \<not> overflow_at_one Mpz (6 * 2 ^ 0) bs
           then (?l + weighted_sum (6 * 2 ^ 0) bs) * ?s else 0)"
          unfolding overflow_at_one_mpz using parse_loop_mpz [OF dr _ sl, of "6 * 2 ^ 0" ?l ?s]
          by simp
        with p q Mpz show ?thesis by (simp only:)
      qed
    qed
  qed
qed

theorem parse_meets_spec_signed_class: "parse Int64 ''-3011101'' = - 279"
  by (subst parse_meets_spec) code_simp

end
